theory Spec2Isabelle
  imports Main
begin

section \<open>The feature forest of \<open>src/struct/generic/feature_tree.mts\<close>\<close>

subsection \<open>Data model\<close>

text \<open>
  \<open>FeatureNodeMetadata<T>\<close> is an immutable record of an identifier, a name and a
  description. The identifier type \<open>T extends string | number\<close> is the type parameter
  \<open>'id\<close>. Identifiers are only ever compared for equality (\<open>===\<close>, and the
  comparison of \<open>Set\<close> and \<open>includes\<close>, which agree on strings and on
  numbers other than \<open>NaN\<close>).
\<close>

record 'id FeatureNodeMetadata =
  ident :: 'id
  name :: string
  description :: string

text \<open>
  \<open>FeatureNode<T>\<close>: metadata, the owned list of children and the mutable
  \<open>enabled\<close> flag. Every node object is owned by exactly one parent (or by the
  forest) and no object occurs twice, so a node is a value of a tree datatype and a
  reference to a node is the list of child indices that leads to it from the roots. Two
  nodes of a forest without repeated identifiers are equal as values only when they are
  the same node.
\<close>

datatype 'id FeatureNode =
  FeatureNode (metadata: "'id FeatureNodeMetadata")
              (children: "'id FeatureNode list")
              (enabled: bool)

text \<open>
  \<open>FeatureForest<T>\<close> has the single field \<open>_topology\<close>, the ordered list of
  its roots.
\<close>

type_synonym 'id FeatureForest = "'id FeatureNode list"

type_synonym node_ref = "nat list"

text \<open>
  What the code throws: the two \<open>Error\<close>s of the validation, and the
  \<open>TypeError\<close> of the runtime when a property of \<open>undefined\<close> is read or
  written.
\<close>

datatype 'id error =
  DuplicateFeatureIDs
  | DuplicateFeatureID 'id
  | TypeError

text \<open>A feature is named by its identifier or by its metadata object.\<close>

datatype 'id feature_arg =
  ById 'id
  | ByMetadata "'id FeatureNodeMetadata"

fun feature_id :: "'id feature_arg \<Rightarrow> 'id" where
  "feature_id (ById i) = i"
| "feature_id (ByMetadata m) = ident m"

definition feature :: "'id \<Rightarrow> string \<Rightarrow> string \<Rightarrow> 'id FeatureNodeMetadata" where
  "feature i n d = \<lparr>ident = i, name = n, description = d\<rparr>"

text \<open>\<open>node(metadata, children?, options?)\<close> with the defaults of the source.\<close>

definition node ::
  "'id FeatureNodeMetadata \<Rightarrow> 'id FeatureNode list option \<Rightarrow> bool option \<Rightarrow> 'id FeatureNode"
where
  "node m cs en =
     FeatureNode m (case cs of None \<Rightarrow> [] | Some c \<Rightarrow> c)
                   (case en of None \<Rightarrow> False | Some b \<Rightarrow> b)"

subsection \<open>Validation\<close>

text \<open>
  \<open>checkChildren(parentIds)\<close>: first the set-size test on the children's
  identifiers, then the loop over the children, each one tested against
  \<open>parentIds\<close> and checked recursively with its own identifier appended.
\<close>

fun checkChildren :: "'id list \<Rightarrow> 'id FeatureNode \<Rightarrow> 'id error + unit"
and checkChildren_loop :: "'id list \<Rightarrow> 'id FeatureNode list \<Rightarrow> 'id error + unit"
where
  "checkChildren parentIds (FeatureNode m cs en) =
     (let ids = map (\<lambda>child. ident (metadata child)) cs in
      if card (set ids) \<noteq> length ids then Inl DuplicateFeatureIDs
      else checkChildren_loop parentIds cs)"
| "checkChildren_loop parentIds [] = Inr ()"
| "checkChildren_loop parentIds (child # rest) =
     (if ident (metadata child) \<in> set parentIds
      then Inl (DuplicateFeatureID (ident (metadata child)))
      else (case checkChildren (parentIds @ [ident (metadata child)]) child of
              Inl e \<Rightarrow> Inl e
            | Inr u \<Rightarrow> checkChildren_loop parentIds rest))"

text \<open>
  The constructor of \<open>FeatureForest\<close>, which is all that \<open>forest(topology)\<close>
  calls: the set-size test on the roots, then \<open>checkChildren\<close> on every root with
  the list of all root identifiers. It returns the forest, or the error thrown.
\<close>

fun construct_loop :: "'id list \<Rightarrow> 'id FeatureNode list \<Rightarrow> 'id error + unit" where
  "construct_loop rootIds [] = Inr ()"
| "construct_loop rootIds (n # rest) =
     (case checkChildren rootIds n of
        Inl e \<Rightarrow> Inl e
      | Inr u \<Rightarrow> construct_loop rootIds rest)"

definition forest :: "'id FeatureNode list \<Rightarrow> 'id error + 'id FeatureForest" where
  "forest topology =
     (let ids = map (\<lambda>child. ident (metadata child)) topology in
      if card (set ids) \<noteq> length ids then Inl DuplicateFeatureIDs
      else (case construct_loop ids topology of
              Inl e \<Rightarrow> Inl e
            | Inr u \<Rightarrow> Inr topology))"

subsection \<open>Lookup\<close>

text \<open>
  \<open>findNodeInTopology(id)\<close>: the first root with the identifier; otherwise, for
  each root in order, the children are wrapped in a new \<open>FeatureForest\<close> (whose
  constructor validates them and may throw) and searched in the same way. The result
  is the node found together with its reference, \<open>None\<close> for \<open>undefined\<close>.
  The counter \<open>k\<close> is the index of the root the loop is at.
\<close>

fun find_root ::
  "'id \<Rightarrow> 'id FeatureNode list \<Rightarrow> nat \<Rightarrow> (node_ref \<times> 'id FeatureNode) option"
where
  "find_root i [] k = None"
| "find_root i (n # rest) k =
     (if ident (metadata n) = i then Some ([k], n) else find_root i rest (Suc k))"

lemma forest_returns_topology: "forest topology = Inr sub \<Longrightarrow> sub = topology"
  by (auto simp: forest_def Let_def split: if_splits sum.splits)

function findNodeInTopology ::
  "'id \<Rightarrow> 'id FeatureForest \<Rightarrow> 'id error + (node_ref \<times> 'id FeatureNode) option"
and findNode_loop ::
  "'id \<Rightarrow> 'id FeatureNode list \<Rightarrow> nat \<Rightarrow> 'id error + (node_ref \<times> 'id FeatureNode) option"
where
  "findNodeInTopology i topology =
     (case find_root i topology 0 of
        Some desired \<Rightarrow> Inr (Some desired)
      | None \<Rightarrow> findNode_loop i topology 0)"
| "findNode_loop i [] k = Inr None"
| "findNode_loop i (n # rest) k =
     (case forest (children n) of
        Inl e \<Rightarrow> Inl e
      | Inr sub \<Rightarrow>
          (case findNodeInTopology i sub of
             Inl e \<Rightarrow> Inl e
           | Inr (Some (r, nd)) \<Rightarrow> Inr (Some (k # r, nd))
           | Inr None \<Rightarrow> findNode_loop i rest (Suc k)))"
  by pat_completeness auto

lemma size_list_children_head:
  "size_list size (children n) < size_list size (n # rest)"
  by (cases n) simp

termination findNodeInTopology
proof (relation "measures
    [\<lambda>x. case x of Inl (i, topology) \<Rightarrow> size_list size topology
                     | Inr (i, ns, k) \<Rightarrow> size_list size ns,
     \<lambda>x. case x of Inl (i, topology) \<Rightarrow> 1 | Inr (i, ns, k) \<Rightarrow> 0]", goal_cases)
  case 1
  then show ?case by simp
next
  case (2 i topology)
  then show ?case by simp
next
  case (3 i n rest k sub)
  then have "sub = children n" by (rule forest_returns_topology)
  then show ?case using size_list_children_head [of n rest] by simp
next
  case (4 i n rest k sub res)
  then show ?case by simp
qed

subsection \<open>Level queries\<close>

text \<open>
  \<open>_computeFeaturesForLevel(level, nodes, currentLevel)\<close>. Levels are integers
  here, negative ones included. The recursion stops when the level is reached or when
  the enabled nodes have no children, and the nodes of each call lie strictly below those
  of the call before, which is why it terminates.
\<close>

function computeFeaturesForLevel ::
  "int \<Rightarrow> 'id FeatureNode list \<Rightarrow> int \<Rightarrow> 'id FeatureNodeMetadata list"
where
  "computeFeaturesForLevel level nodes currentLevel =
     (if currentLevel = level then map metadata nodes
      else (let nextNodes = concat (map children (filter enabled nodes)) in
            if length nextNodes = 0 then []
            else computeFeaturesForLevel level nextNodes (currentLevel + 1)))"
  by pat_completeness auto

lemma size_list_children_less:
  "ns \<noteq> [] \<Longrightarrow> size_list size (concat (map children ns)) < size_list size ns"
proof (induction ns)
  case Nil
  then show ?case by simp
next
  case (Cons n ns)
  have "size_list size (children n) < size n" by (cases n) simp
  moreover have "size_list size (concat (map children ns)) \<le> size_list size ns"
    using Cons.IH by (cases "ns = []") auto
  ultimately show ?case by simp
qed

lemma size_list_filter_le: "size_list f (filter P ns) \<le> size_list f ns"
  by (induction ns) auto

lemma size_list_enabled_children_less:
  assumes "concat (map children (filter enabled ns)) \<noteq> []"
  shows "size_list size (concat (map children (filter enabled ns))) < size_list size ns"
proof -
  have "filter enabled ns \<noteq> []"
  proof
    assume "filter enabled ns = []"
    with assms show False by simp
  qed
  then have "size_list size (concat (map children (filter enabled ns)))
               < size_list size (filter enabled ns)"
    by (rule size_list_children_less)
  also have "\<dots> \<le> size_list size ns" by (rule size_list_filter_le)
  finally show ?thesis .
qed

termination computeFeaturesForLevel
  by (relation "measure (\<lambda>(level, nodes, currentLevel). size_list size nodes)")
     (auto intro: size_list_enabled_children_less)

definition getFeaturesForLevel :: "int \<Rightarrow> 'id FeatureForest \<Rightarrow> 'id FeatureNodeMetadata list" where
  "getFeaturesForLevel level topology =
     (if level = 0 then map metadata topology
      else computeFeaturesForLevel level topology 0)"

subsection \<open>Enabled state\<close>

text \<open>
  \<open>getParentOf(feature)\<close>: the node is looked up, then the first root whose
  children include it is taken and its metadata read. The non-null assertions of the
  source do nothing at run time: when no root is found, reading \<open>metadata\<close> of
  \<open>undefined\<close> throws. The declared result type is the metadata or
  \<open>undefined\<close>, hence the option.
\<close>

definition includes_node :: "'id FeatureNode list \<Rightarrow> 'id FeatureNode option \<Rightarrow> bool" where
  "includes_node ns nd = (case nd of None \<Rightarrow> False | Some n \<Rightarrow> n \<in> set ns)"

definition getParentOf ::
  "'id feature_arg \<Rightarrow> 'id FeatureForest \<Rightarrow> 'id error + 'id FeatureNodeMetadata option"
where
  "getParentOf f topology =
     (case findNodeInTopology (feature_id f) topology of
        Inl e \<Rightarrow> Inl e
      | Inr found \<Rightarrow>
          (case find (\<lambda>currentNode. includes_node (children currentNode) (map_option snd found))
                     topology of
             None \<Rightarrow> Inl TypeError
           | Some parent \<Rightarrow> Inr (Some (metadata parent))))"

text \<open>\<open>get(feature)\<close>: the flag of the node found, \<open>false\<close> when none is.\<close>

definition get :: "'id feature_arg \<Rightarrow> 'id FeatureForest \<Rightarrow> 'id error + bool" where
  "get f topology =
     (case findNodeInTopology (feature_id f) topology of
        Inl e \<Rightarrow> Inl e
      | Inr None \<Rightarrow> Inr False
      | Inr (Some (r, nd)) \<Rightarrow> Inr (enabled nd))"

text \<open>
  \<open>getAllEnabled()\<close>: the \<open>while\<close> loop on the \<open>search\<close> list, with the
  list \<open>enabled\<close> of the source as the accumulator \<open>acc\<close>.
\<close>

function getAllEnabled_loop ::
  "'id FeatureNode list \<Rightarrow> 'id FeatureNodeMetadata list \<Rightarrow> 'id FeatureNodeMetadata list"
where
  "getAllEnabled_loop search acc =
     (if length search > 0
      then getAllEnabled_loop
             (concat (map (\<lambda>n. filter enabled (children n)) search))
             (acc @ map metadata search)
      else acc)"
  by pat_completeness auto

lemma size_list_concat_filter_le:
  "size_list f (concat (map (\<lambda>n. filter P (g n)) ns)) \<le> size_list f (concat (map g ns))"
  by (induction ns) (auto intro: add_mono size_list_filter_le)

termination getAllEnabled_loop
proof (relation "measure (\<lambda>(search, acc). size_list size search)")
  show "wf (measure (\<lambda>(search, acc). size_list size search))" by simp
next
  fix search :: "'id FeatureNode list" and acc :: "'id FeatureNodeMetadata list"
  assume "0 < length search"
  then have ne: "search \<noteq> []" by simp
  have "size_list size (concat (map (\<lambda>n. filter enabled (children n)) search))
          \<le> size_list size (concat (map children search))"
    by (rule size_list_concat_filter_le)
  also have "\<dots> < size_list size search"
    using ne by (rule size_list_children_less)
  finally show "((concat (map (\<lambda>n. filter enabled (children n)) search),
                  acc @ map metadata search), (search, acc))
                \<in> measure (\<lambda>(search, acc). size_list size search)"
    by simp
qed

definition getAllEnabled :: "'id FeatureForest \<Rightarrow> 'id FeatureNodeMetadata list" where
  "getAllEnabled topology = getAllEnabled_loop (filter enabled topology) []"

text \<open>
  \<open>set(feature, enabled)\<close> writes the flag of the node found. The write goes
  through the reference: \<open>assign_enabled\<close> replaces the flag of the node at that
  place and nothing else. When no node is found the write throws and the forest is as
  it was. The result is what the call returns or throws, with the forest after it.
\<close>

fun assign_enabled :: "node_ref \<Rightarrow> bool \<Rightarrow> 'id FeatureNode list \<Rightarrow> 'id FeatureNode list" where
  "assign_enabled [] b ns = ns"
| "assign_enabled [k] b ns =
     (if k < length ns
      then ns[k := FeatureNode (metadata (ns ! k)) (children (ns ! k)) b]
      else ns)"
| "assign_enabled (k # r) b ns =
     (if k < length ns
      then ns[k := FeatureNode (metadata (ns ! k))
                               (assign_enabled r b (children (ns ! k)))
                               (enabled (ns ! k))]
      else ns)"

definition set_enabled ::
  "'id feature_arg \<Rightarrow> bool \<Rightarrow> 'id FeatureForest \<Rightarrow> ('id error + unit) \<times> 'id FeatureForest"
where
  "set_enabled f b topology =
     (case findNodeInTopology (feature_id f) topology of
        Inl e \<Rightarrow> (Inl e, topology)
      | Inr None \<Rightarrow> (Inl TypeError, topology)
      | Inr (Some (r, nd)) \<Rightarrow> (Inr (), assign_enabled r b topology))"

definition enable ::
  "'id feature_arg \<Rightarrow> 'id FeatureForest \<Rightarrow> ('id error + unit) \<times> 'id FeatureForest"
where
  "enable f topology = set_enabled f True topology"

definition disable ::
  "'id feature_arg \<Rightarrow> 'id FeatureForest \<Rightarrow> ('id error + unit) \<times> 'id FeatureForest"
where
  "disable f topology = set_enabled f False topology"

section \<open>The catalog of \<open>src/struct/project.mts\<close>\<close>

datatype CinnamonProjectFeatureType =
  VALIDATOR
  | DATABASE
  | AUTHENTICATION
  | PUSH_TOKENS
  | ASSET
  | AVATAR
  | ASL_PROTOCOL
  | ASL_ERRORS
  | WEBSERVER_SETTINGS_PLUGIN

fun CinnamonProjectFeature ::
  "CinnamonProjectFeatureType \<Rightarrow> CinnamonProjectFeatureType FeatureNodeMetadata"
where
  "CinnamonProjectFeature VALIDATOR =
     feature VALIDATOR ''Cinnamon Validator''
       ''Provides data validation with human-readable error messages.''"
| "CinnamonProjectFeature DATABASE =
     feature DATABASE ''Cinnamon Database (powered by MikroORM)''
       ''Connect to a database and manage data with MikroORM.''"
| "CinnamonProjectFeature AUTHENTICATION =
     feature AUTHENTICATION ''Authentication''
       ''Manage user accounts and authenticate users.''"
| "CinnamonProjectFeature PUSH_TOKENS =
     feature PUSH_TOKENS ''Push Tokens''
       ''Support for associating push tokens for mobile devices with a user session.''"
| "CinnamonProjectFeature ASSET =
     feature ASSET ''Assets''
       ''Support for storing assets (e.g., profile avatars/pictures) for users.''"
| "CinnamonProjectFeature AVATAR =
     feature AVATAR ''Avatars''
       ''Support for storing profile pictures for users.''"
| "CinnamonProjectFeature ASL_PROTOCOL =
     feature ASL_PROTOCOL ''Apollo Software Limited (ASL) Protocol''
       ''Installs the asl-protocol plugin. Adds ASL's request-response middlewares and several convenience features to Cinnamon.''"
| "CinnamonProjectFeature ASL_ERRORS =
     feature ASL_ERRORS ''ASL Errors''
       ''Adds project/domain-specific error codes and handling to your project. Useful for API projects.''"
| "CinnamonProjectFeature WEBSERVER_SETTINGS_PLUGIN =
     feature WEBSERVER_SETTINGS_PLUGIN ''Webserver Settings Plugin''
       ''Adds a plugin to your project that allows configuring the proxy mode of the webserver. Useful as a starting point for your own plugins.''"

text \<open>
  The topology built by \<open>createCinnamonFeatureForest\<close>, before the constructor
  of the forest has checked it, and the call itself.
\<close>

definition cinnamonTopology :: "CinnamonProjectFeatureType FeatureNode list" where
  "cinnamonTopology =
     [ node (CinnamonProjectFeature VALIDATOR) None None,
       node (CinnamonProjectFeature DATABASE) (Some
         [ node (CinnamonProjectFeature AUTHENTICATION) (Some
             [ node (CinnamonProjectFeature PUSH_TOKENS) None None ]) None,
           node (CinnamonProjectFeature ASSET) (Some
             [ node (CinnamonProjectFeature AVATAR) None None ]) None ]) None,
       node (CinnamonProjectFeature ASL_PROTOCOL) None None,
       node (CinnamonProjectFeature ASL_ERRORS) None None,
       node (CinnamonProjectFeature WEBSERVER_SETTINGS_PLUGIN) None None ]"

definition createCinnamonFeatureForest ::
  "CinnamonProjectFeatureType error + CinnamonProjectFeatureType FeatureForest"
where
  "createCinnamonFeatureForest = forest cinnamonTopology"

section \<open>Vocabulary of the properties\<close>

text \<open>
  The nodes of a forest in preorder, their identifiers, and the invariant of the data
  model: a forest is valid when no two of its nodes share an identifier.
\<close>

fun node_nodes :: "'id FeatureNode \<Rightarrow> 'id FeatureNode list"
and forest_nodes :: "'id FeatureNode list \<Rightarrow> 'id FeatureNode list"
where
  "node_nodes (FeatureNode m cs en) = FeatureNode m cs en # forest_nodes cs"
| "forest_nodes [] = []"
| "forest_nodes (n # ns) = node_nodes n @ forest_nodes ns"

abbreviation id_of :: "'id FeatureNode \<Rightarrow> 'id" where
  "id_of n \<equiv> ident (metadata n)"

definition forest_ids :: "'id FeatureNode list \<Rightarrow> 'id list" where
  "forest_ids ns = map id_of (forest_nodes ns)"

definition valid_forest :: "'id FeatureForest \<Rightarrow> bool" where
  "valid_forest topology = distinct (forest_ids topology)"

text \<open>The node a reference points to.\<close>

fun node_at :: "node_ref \<Rightarrow> 'id FeatureNode list \<Rightarrow> 'id FeatureNode option" where
  "node_at [] ns = None"
| "node_at [k] ns = (if k < length ns then Some (ns ! k) else None)"
| "node_at (k # r) ns = (if k < length ns then node_at r (children (ns ! k)) else None)"

text \<open>
  What a lookup of the identifier \<open>i\<close> may answer: a node with that identifier
  and the reference that leads to it, or nothing when no node has it. The second
  predicate is the same for the loop over the roots, which looks below the roots only
  and counts them from \<open>k\<close>.
\<close>

definition found_ok ::
  "'id \<Rightarrow> 'id FeatureNode list \<Rightarrow> (node_ref \<times> 'id FeatureNode) option \<Rightarrow> bool"
where
  "found_ok i ns res =
     (case res of
        None \<Rightarrow> i \<notin> set (forest_ids ns)
      | Some (r, n) \<Rightarrow> node_at r ns = Some n \<and> id_of n = i)"

definition found_below ::
  "'id \<Rightarrow> 'id FeatureNode list \<Rightarrow> nat \<Rightarrow> (node_ref \<times> 'id FeatureNode) option \<Rightarrow> bool"
where
  "found_below i ns k res =
     (case res of
        None \<Rightarrow> (\<forall>n\<in>set ns. i \<notin> set (forest_ids (children n)))
      | Some (r, n) \<Rightarrow>
          (\<exists>j r'. r = (k + j) # r' \<and> j < length ns \<and>
                  node_at r' (children (ns ! j)) = Some n \<and> id_of n = i))"

text \<open>
  The forest of the documentation comment of \<open>getFeaturesForLevel\<close>:
  \<open>A\<close> with the children \<open>B\<close> (child \<open>C\<close>) and \<open>D\<close> (child
  \<open>E\<close>), here with \<open>A\<close>, \<open>B\<close> and \<open>E\<close> enabled.
\<close>

definition exampleTopology :: "string FeatureNode list" where
  "exampleTopology =
     [ node (feature ''A'' ''Feature A'' ''top'') (Some
         [ node (feature ''B'' ''Feature B'' ''first child'') (Some
             [ node (feature ''C'' ''Feature C'' ''leaf'') None None ]) (Some True),
           node (feature ''D'' ''Feature D'' ''second child'') (Some
             [ node (feature ''E'' ''Feature E'' ''leaf'') None (Some True) ]) None ])
         (Some True) ]"

text \<open>
  Two forests with a repeated identifier: \<open>C\<close> below two different roots, and
  \<open>C\<close> below a node and beside it.
\<close>

definition cousinsTopology :: "string FeatureNode list" where
  "cousinsTopology =
     [ node (feature ''A'' ''Feature A'' ''root'') (Some
         [ node (feature ''C'' ''Feature C'' ''child of A'') None None ]) None,
       node (feature ''B'' ''Feature B'' ''root'') (Some
         [ node (feature ''C'' ''Feature C'' ''child of B'') None None ]) None ]"

definition uncleTopology :: "string FeatureNode list" where
  "uncleTopology =
     [ node (feature ''A'' ''Feature A'' ''root'') (Some
         [ node (feature ''B'' ''Feature B'' ''child of A'') (Some
             [ node (feature ''C'' ''Feature C'' ''child of B'') None None ]) None,
           node (feature ''C'' ''Feature C'' ''child of A'') None None ]) None ]"

text \<open>
  The identifiers met along a reference, from the root of the tree down to the node.
\<close>

fun ids_along :: "node_ref \<Rightarrow> 'id FeatureNode list \<Rightarrow> 'id list" where
  "ids_along [] ns = []"
| "ids_along (k # r) ns = id_of (ns ! k) # ids_along r (children (ns ! k))"

text \<open>
  A sequence of \<open>set\<close> calls (\<open>enable\<close> and \<open>disable\<close> are \<open>set\<close> with
  \<open>true\<close> and \<open>false\<close>), each on the forest the previous one left.
\<close>

fun run_calls :: "('id feature_arg \<times> bool) list \<Rightarrow> 'id FeatureForest \<Rightarrow> 'id FeatureForest" where
  "run_calls [] topology = topology"
| "run_calls ((f, b) # calls) topology = run_calls calls (snd (set_enabled f b topology))"

text \<open>
  A node that is enabled together with all its ancestors: the flags are set along the
  whole reference, from the root of its tree down to the node itself. And the nodes of a
  forest that can be reached from its roots through enabled nodes only.
\<close>

fun chain_enabled :: "node_ref \<Rightarrow> 'id FeatureNode list \<Rightarrow> bool" where
  "chain_enabled [] ns = False"
| "chain_enabled [k] ns = (k < length ns \<and> enabled (ns ! k))"
| "chain_enabled (k # r) ns =
     (k < length ns \<and> enabled (ns ! k) \<and> chain_enabled r (children (ns ! k)))"

fun en_node :: "'id FeatureNode \<Rightarrow> 'id FeatureNode list"
and en_forest :: "'id FeatureNode list \<Rightarrow> 'id FeatureNode list"
where
  "en_node (FeatureNode m cs en) = FeatureNode m cs en # en_forest cs"
| "en_forest [] = []"
| "en_forest (n # ns) = (if enabled n then en_node n else []) @ en_forest ns"

text \<open>
  The length of the longest chain of enabled nodes that starts at a root and goes from
  parent to child, and the number of levels of the forest.
\<close>

fun enabled_depth_node :: "'id FeatureNode \<Rightarrow> nat"
and enabled_depth :: "'id FeatureNode list \<Rightarrow> nat"
where
  "enabled_depth_node (FeatureNode m cs en) = (if en then Suc (enabled_depth cs) else 0)"
| "enabled_depth [] = 0"
| "enabled_depth (n # ns) = max (enabled_depth_node n) (enabled_depth ns)"

fun depth_node :: "'id FeatureNode \<Rightarrow> nat"
and forest_depth :: "'id FeatureNode list \<Rightarrow> nat"
where
  "depth_node (FeatureNode m cs en) = Suc (forest_depth cs)"
| "forest_depth [] = 0"
| "forest_depth (n # ns) = max (depth_node n) (forest_depth ns)"

section \<open>Properties\<close>

declare computeFeaturesForLevel.simps [simp del]
declare getAllEnabled_loop.simps [simp del]

subsection \<open>Level queries\<close>

lemma computeFeaturesForLevel_past:
  "level < currentLevel \<Longrightarrow> computeFeaturesForLevel level nodes currentLevel = []"
proof (induction level nodes currentLevel rule: computeFeaturesForLevel.induct)
  case (1 level nodes currentLevel)
  show ?case
  proof (cases "concat (map children (filter enabled nodes)) = []")
    case True
    with "1.prems" show ?thesis
      by (subst computeFeaturesForLevel.simps) simp
  next
    case False
    with "1.prems" have
      "computeFeaturesForLevel level (concat (map children (filter enabled nodes)))
         (currentLevel + 1) = []"
      by (intro "1.IH") auto
    with "1.prems" False show ?thesis
      by (subst computeFeaturesForLevel.simps) (simp add: Let_def)
  qed
qed

text \<open>
  C10. For a negative level \<open>getFeaturesForLevel\<close> returns the empty list. The
  function is total: the recursion of \<open>computeFeaturesForLevel\<close> was shown to
  terminate on every forest and every level, the current level only grows away from a
  negative target, and the descent ends when the enabled nodes have no children.
\<close>

theorem getFeaturesForLevel_negative:
  "level < 0 \<Longrightarrow> getFeaturesForLevel level topology = []"
  by (simp add: getFeaturesForLevel_def computeFeaturesForLevel_past)

theorem getFeaturesForLevel_negative_witness:
  "(-3 :: int) < 0 \<and>
   getFeaturesForLevel (-3)
     (snd (enable (ById DATABASE) cinnamonTopology)) = []"
  using getFeaturesForLevel_negative
          [of "-3" "snd (enable (ById DATABASE) cinnamonTopology)"]
  by simp

lemma map_metadata_assign_enabled:
  "map metadata (assign_enabled r b ns) = map metadata ns"
  by (induction r b ns rule: assign_enabled.induct)
     (auto simp: map_update list_update_same_conv)

lemma map_metadata_set_enabled:
  "map metadata (snd (set_enabled f b topology)) = map metadata topology"
  by (auto simp: set_enabled_def map_metadata_assign_enabled
           split: sum.splits option.splits)

lemma map_metadata_run_calls:
  "map metadata (run_calls calls topology) = map metadata topology"
  by (induction calls topology rule: run_calls.induct)
     (simp_all add: map_metadata_set_enabled)

text \<open>
  C4. \<open>getFeaturesForLevel(0)\<close> is the list of the metadata of the roots, in the
  order of the forest, whatever the flags are; and after any sequence of \<open>set\<close>,
  \<open>enable\<close> and \<open>disable\<close> calls it is still the list it was before them.
\<close>

theorem getFeaturesForLevel_0:
  "getFeaturesForLevel 0 topology = map metadata topology \<and>
   getFeaturesForLevel 0 (run_calls calls topology) = getFeaturesForLevel 0 topology"
  by (simp add: getFeaturesForLevel_def map_metadata_run_calls)

lemma enabled_depth_append:
  "enabled_depth (xs @ ys) = max (enabled_depth xs) (enabled_depth ys)"
  by (induction xs) (simp_all add: max.assoc)

lemma enabled_depth_node_children:
  "enabled n \<Longrightarrow> enabled_depth_node n = Suc (enabled_depth (children n))"
  by (cases n) simp

lemma enabled_depth_next:
  "filter enabled ns \<noteq> [] \<Longrightarrow>
   enabled_depth (concat (map children (filter enabled ns))) < enabled_depth ns"
proof (induction ns)
  case Nil
  then show ?case by simp
next
  case (Cons n ns)
  show ?case
  proof (cases "filter enabled ns = []")
    case True
    with Cons.prems have "enabled n" by (auto split: if_splits)
    with True show ?thesis
      by (simp add: enabled_depth_node_children)
  next
    case False
    then have IH: "enabled_depth (concat (map children (filter enabled ns))) < enabled_depth ns"
      by (rule Cons.IH)
    show ?thesis
    proof (cases "enabled n")
      case True
      with IH show ?thesis
        by (auto simp: enabled_depth_append enabled_depth_node_children max_def)
    next
      case False
      with IH show ?thesis by simp
    qed
  qed
qed

lemma computeFeaturesForLevel_deep:
  "currentLevel + int (enabled_depth nodes) < level \<Longrightarrow>
   computeFeaturesForLevel level nodes currentLevel = []"
proof (induction level nodes currentLevel rule: computeFeaturesForLevel.induct)
  case (1 level nodes currentLevel)
  let ?next = "concat (map children (filter enabled nodes))"
  from "1.prems" have ne: "currentLevel \<noteq> level" by simp
  show ?case
  proof (cases "?next = []")
    case True
    with ne show ?thesis
      by (subst computeFeaturesForLevel.simps) simp
  next
    case False
    have "filter enabled nodes \<noteq> []"
    proof
      assume "filter enabled nodes = []"
      with False show False by simp
    qed
    then have "enabled_depth ?next < enabled_depth nodes" by (rule enabled_depth_next)
    with "1.prems" have "currentLevel + 1 + int (enabled_depth ?next) < level" by simp
    with ne False have "computeFeaturesForLevel level ?next (currentLevel + 1) = []"
      by (intro "1.IH") auto
    with ne False show ?thesis
      by (subst computeFeaturesForLevel.simps) (simp add: Let_def)
  qed
qed

lemma enabled_depth_le_forest_depth:
  "enabled_depth_node (n :: 'id FeatureNode) \<le> depth_node n"
  "enabled_depth (ns :: 'id FeatureNode list) \<le> forest_depth ns"
  by (induction n and ns rule: enabled_depth_node_enabled_depth.induct) auto

lemma forest_depth_append:
  "forest_depth (xs @ ys) = max (forest_depth xs) (forest_depth ys)"
  by (induction xs) (simp_all add: max.assoc)

lemma depth_node_children: "depth_node n = Suc (forest_depth (children n))"
  by (cases n) simp

lemma forest_depth_next:
  "ns \<noteq> [] \<Longrightarrow> forest_depth (concat (map children (filter enabled ns))) < forest_depth ns"
proof (induction ns)
  case Nil
  then show ?case by simp
next
  case (Cons n ns)
  show ?case
  proof (cases "ns = []")
    case True
    then show ?thesis by (simp add: depth_node_children)
  next
    case False
    then have "forest_depth (concat (map children (filter enabled ns))) < forest_depth ns"
      by (rule Cons.IH)
    then show ?thesis
      by (auto simp: forest_depth_append depth_node_children max_def)
  qed
qed

lemma forest_depth_0: "forest_depth ns = 0 \<longleftrightarrow> ns = []"
  by (cases ns) (simp_all add: depth_node_children)

lemma computeFeaturesForLevel_below_forest:
  "currentLevel + int (forest_depth nodes) \<le> level \<Longrightarrow>
   computeFeaturesForLevel level nodes currentLevel = []"
proof (induction level nodes currentLevel rule: computeFeaturesForLevel.induct)
  case (1 level nodes currentLevel)
  let ?next = "concat (map children (filter enabled nodes))"
  show ?case
  proof (cases "currentLevel = level")
    case True
    with "1.prems" have "nodes = []" by (simp add: forest_depth_0)
    with True show ?thesis by (subst computeFeaturesForLevel.simps) simp
  next
    case ne: False
    show ?thesis
    proof (cases "?next = []")
      case True
      with ne show ?thesis by (subst computeFeaturesForLevel.simps) simp
    next
      case False
      then have "nodes \<noteq> []" by auto
      then have "forest_depth ?next < forest_depth nodes" by (rule forest_depth_next)
      with "1.prems" have "currentLevel + 1 + int (forest_depth ?next) \<le> level" by simp
      with ne False have "computeFeaturesForLevel level ?next (currentLevel + 1) = []"
        by (intro "1.IH") auto
      with ne False show ?thesis
        by (subst computeFeaturesForLevel.simps) (simp add: Let_def)
    qed
  qed
qed

text \<open>
  C8. A chain of enabled nodes starts at a root, goes from parent to child and has only
  enabled nodes; its depth is the number of its nodes, which are on the levels
  \<open>0\<close> to that number less one and open the level after them. When the level is
  greater than the depth of every such chain, or is a level that no node of the forest is
  on, the walk finds the candidate list empty before it reaches the level and
  \<open>getFeaturesForLevel\<close> returns the empty list. The function has no failing
  branch.
\<close>

theorem getFeaturesForLevel_beyond:
  assumes "int (enabled_depth topology) < level \<or> int (forest_depth topology) \<le> level"
  shows "getFeaturesForLevel level topology = []"
  using assms
proof
  assume "int (enabled_depth topology) < level"
  then have "0 + int (enabled_depth topology) < level" "level \<noteq> 0" by simp_all
  then show ?thesis
    by (simp add: getFeaturesForLevel_def computeFeaturesForLevel_deep)
next
  assume le: "int (forest_depth topology) \<le> level"
  show ?thesis
  proof (cases "level = 0")
    case True
    with le have "topology = []" by (simp add: forest_depth_0)
    with True show ?thesis by (simp add: getFeaturesForLevel_def)
  next
    case False
    from le have "0 + int (forest_depth topology) \<le> level" by simp
    with False show ?thesis
      by (simp add: getFeaturesForLevel_def computeFeaturesForLevel_below_forest)
  qed
qed

theorem getFeaturesForLevel_beyond_witness:
  "int (enabled_depth (snd (enable (ById DATABASE) cinnamonTopology))) < 2 \<and>
   int (forest_depth cinnamonTopology) \<le> 3 \<and>
   getFeaturesForLevel 2 (snd (enable (ById DATABASE) cinnamonTopology)) = [] \<and>
   getFeaturesForLevel 3 cinnamonTopology = []"
proof -
  have a: "int (enabled_depth (snd (enable (ById DATABASE) cinnamonTopology))) < 2"
    by code_simp
  have b: "int (forest_depth cinnamonTopology) \<le> 3"
    by code_simp
  show ?thesis
    using a b getFeaturesForLevel_beyond [OF disjI1, OF a]
      getFeaturesForLevel_beyond [OF disjI2, OF b]
    by simp
qed

subsection \<open>Valid forests and references\<close>

lemma forest_nodes_append:
  "forest_nodes (xs @ ys) = forest_nodes xs @ forest_nodes ys"
  by (induction xs) simp_all

lemma node_nodes_eq: "node_nodes n = n # forest_nodes (children n)"
  by (cases n) simp

lemma forest_ids_Nil: "forest_ids [] = []"
  by (simp add: forest_ids_def)

lemma forest_ids_Cons:
  "forest_ids (n # ns) = id_of n # forest_ids (children n) @ forest_ids ns"
  by (simp add: forest_ids_def node_nodes_eq)

lemma forest_ids_append: "forest_ids (xs @ ys) = forest_ids xs @ forest_ids ys"
  by (simp add: forest_ids_def forest_nodes_append)

lemma valid_forest_Nil: "valid_forest []"
  by (simp add: valid_forest_def forest_ids_Nil)

lemma valid_forest_Cons:
  "valid_forest (n # ns) \<longleftrightarrow>
     id_of n \<notin> set (forest_ids (children n)) \<and> id_of n \<notin> set (forest_ids ns) \<and>
     valid_forest (children n) \<and> valid_forest ns \<and>
     set (forest_ids (children n)) \<inter> set (forest_ids ns) = {}"
  by (auto simp: valid_forest_def forest_ids_Cons)

lemma root_ids_subset: "n \<in> set ns \<Longrightarrow> id_of n \<in> set (forest_ids ns)"
  by (induction ns) (auto simp: forest_ids_Cons)

lemma children_ids_subset:
  "n \<in> set ns \<Longrightarrow> set (forest_ids (children n)) \<subseteq> set (forest_ids ns)"
  by (induction ns) (auto simp: forest_ids_Cons)

lemma valid_forest_roots_distinct:
  "valid_forest ns \<Longrightarrow> distinct (map id_of ns)"
proof (induction ns)
  case Nil
  then show ?case by simp
next
  case (Cons n ns)
  then show ?case
    by (auto simp: valid_forest_Cons dest: root_ids_subset)
qed

lemma valid_forest_children:
  "valid_forest ns \<Longrightarrow> n \<in> set ns \<Longrightarrow> valid_forest (children n)"
  by (induction ns) (auto simp: valid_forest_Cons)

lemma valid_forest_root_vs_children:
  "valid_forest ns \<Longrightarrow> n \<in> set ns \<Longrightarrow> n' \<in> set ns \<Longrightarrow>
   id_of n' \<notin> set (forest_ids (children n))"
proof (induction ns)
  case Nil
  then show ?case by simp
next
  case (Cons a ns)
  then show ?case
    using root_ids_subset [of n' ns] children_ids_subset [of n ns]
    by (auto simp: valid_forest_Cons)
qed

lemma valid_forest_children_disjoint:
  "valid_forest ns \<Longrightarrow> k < length ns \<Longrightarrow> k' < length ns \<Longrightarrow> k \<noteq> k' \<Longrightarrow>
   set (forest_ids (children (ns ! k))) \<inter> set (forest_ids (children (ns ! k'))) = {}"
proof (induction ns arbitrary: k k')
  case Nil
  then show ?case by simp
next
  case (Cons a ns)
  from Cons.prems(1) have v: "valid_forest ns" and
      d: "set (forest_ids (children a)) \<inter> set (forest_ids ns) = {}"
    by (simp_all add: valid_forest_Cons)
  show ?case
  proof (cases k)
    case 0
    with Cons.prems obtain j where j: "k' = Suc j" "j < length ns" by (cases k') auto
    then have "set (forest_ids (children (ns ! j))) \<subseteq> set (forest_ids ns)"
      using children_ids_subset [OF nth_mem, of j ns] by simp
    with d 0 j show ?thesis by auto
  next
    case (Suc i)
    show ?thesis
    proof (cases k')
      case 0
      from Suc Cons.prems have "set (forest_ids (children (ns ! i))) \<subseteq> set (forest_ids ns)"
        using children_ids_subset [OF nth_mem, of i ns] by simp
      with d 0 Suc show ?thesis by auto
    next
      case (Suc j)
      with \<open>k = Suc i\<close> Cons.prems Cons.IH [OF v, of i j] show ?thesis by simp
    qed
  qed
qed

lemma set_forest_ids:
  "set (forest_ids ns) = id_of ` set ns \<union> (\<Union>n\<in>set ns. set (forest_ids (children n)))"
  by (induction ns) (auto simp: forest_ids_Nil forest_ids_Cons)

lemma set_forest_nodes:
  "set (forest_nodes ns) = set ns \<union> (\<Union>n\<in>set ns. set (forest_nodes (children n)))"
  by (induction ns) (auto simp: node_nodes_eq)

lemma node_at_step:
  "r \<noteq> [] \<Longrightarrow>
   node_at (k # r) ns = (if k < length ns then node_at r (children (ns ! k)) else None)"
  by (cases r) simp_all

lemma node_at_nonempty: "node_at r ns = Some n \<Longrightarrow> r \<noteq> []"
  by (cases r) simp_all

lemma node_at_forest_nodes:
  "node_at r ns = Some n \<Longrightarrow> n \<in> set (forest_nodes ns)"
proof (induction r ns rule: node_at.induct)
  case (1 ns)
  then show ?case by simp
next
  case (2 k ns)
  then have "n \<in> set ns" by (auto split: if_splits)
  then show ?case by (subst set_forest_nodes) blast
next
  case (3 k v va ns)
  from "3.prems" have k: "k < length ns" and
      at: "node_at (v # va) (children (ns ! k)) = Some n"
    by (auto split: if_splits)
  from "3.IH" [OF k at] have "n \<in> set (forest_nodes (children (ns ! k)))" .
  moreover from k have "ns ! k \<in> set ns" by simp
  ultimately show ?case by (subst set_forest_nodes) blast
qed

lemma node_at_ids:
  "node_at r ns = Some n \<Longrightarrow> id_of n \<in> set (forest_ids ns)"
  using node_at_forest_nodes [of r ns n] by (auto simp: forest_ids_def)

lemma valid_forest_same_id:
  assumes "valid_forest ns" "n \<in> set (forest_nodes ns)" "n' \<in> set (forest_nodes ns)"
      "id_of n = id_of n'"
  shows "n = n'"
proof -
  from assms(1) have "inj_on id_of (set (forest_nodes ns))"
    by (simp add: valid_forest_def forest_ids_def distinct_map)
  with assms(2-4) show ?thesis by (auto dest: inj_onD)
qed

lemma node_at_unique:
  "valid_forest ns \<Longrightarrow> node_at r ns = Some n \<Longrightarrow> node_at r' ns = Some n' \<Longrightarrow>
   id_of n = id_of n' \<Longrightarrow> r = r'"
proof (induction r ns arbitrary: r' rule: node_at.induct)
  case (1 ns)
  then show ?case by simp
next
  case (2 k ns)
  from "2.prems"(2) have k: "k < length ns" and n: "n = ns ! k"
    by (auto split: if_splits)
  from "2.prems"(3) obtain k' t' where r': "r' = k' # t'"
    by (cases r') auto
  show ?case
  proof (cases t')
    case Nil
    with r' "2.prems"(3) have k': "k' < length ns" and n': "n' = ns ! k'"
      by (auto split: if_splits)
    from "2.prems"(1) have "distinct (map id_of ns)" by (rule valid_forest_roots_distinct)
    moreover from n n' "2.prems"(4) k k' have "map id_of ns ! k = map id_of ns ! k'" by simp
    ultimately have "k = k'"
      using k k' nth_eq_iff_index_eq [of "map id_of ns" k k'] by simp
    with r' Nil show ?thesis by simp
  next
    case (Cons v va)
    with r' "2.prems"(3) have k': "k' < length ns" and
        at: "node_at t' (children (ns ! k')) = Some n'"
      by (auto split: if_splits)
    from at have "id_of n' \<in> set (forest_ids (children (ns ! k')))" by (rule node_at_ids)
    moreover have "id_of (ns ! k) \<notin> set (forest_ids (children (ns ! k')))"
      using valid_forest_root_vs_children [OF "2.prems"(1) nth_mem [OF k'] nth_mem [OF k]] .
    ultimately show ?thesis using n "2.prems"(4) by simp
  qed
next
  case (3 k v va ns)
  from "3.prems"(2) have k: "k < length ns" and
      at: "node_at (v # va) (children (ns ! k)) = Some n"
    by (auto split: if_splits)
  from at have idn: "id_of n \<in> set (forest_ids (children (ns ! k)))" by (rule node_at_ids)
  from "3.prems"(3) obtain k' t' where r': "r' = k' # t'"
    by (cases r') auto
  show ?case
  proof (cases t')
    case Nil
    with r' "3.prems"(3) have k': "k' < length ns" and n': "n' = ns ! k'"
      by (auto split: if_splits)
    have "id_of (ns ! k') \<notin> set (forest_ids (children (ns ! k)))"
      using valid_forest_root_vs_children [OF "3.prems"(1) nth_mem [OF k] nth_mem [OF k']] .
    with idn n' "3.prems"(4) show ?thesis by simp
  next
    case (Cons w wa)
    with r' "3.prems"(3) have k': "k' < length ns" and
        at': "node_at t' (children (ns ! k')) = Some n'"
      by (auto split: if_splits)
    from at' have idn': "id_of n' \<in> set (forest_ids (children (ns ! k')))"
      by (rule node_at_ids)
    have "k = k'"
    proof (rule ccontr)
      assume "k \<noteq> k'"
      with "3.prems"(1) k k' have
        "set (forest_ids (children (ns ! k))) \<inter> set (forest_ids (children (ns ! k'))) = {}"
        by (rule valid_forest_children_disjoint)
      with idn idn' "3.prems"(4) show False by auto
    qed
    moreover have "valid_forest (children (ns ! k))"
      using valid_forest_children [OF "3.prems"(1) nth_mem [OF k]] .
    ultimately have "v # va = t'"
      using "3.IH" [OF k _ at _ "3.prems"(4), of t'] at' by simp
    with \<open>k = k'\<close> r' show ?thesis by simp
  qed
qed

subsection \<open>Construction\<close>

lemma checkChildren_ok:
  "distinct (forest_ids (children n)) \<Longrightarrow> set P \<inter> set (forest_ids (children n)) = {} \<Longrightarrow>
   checkChildren P n = Inr ()"
  "distinct (forest_ids cs) \<Longrightarrow> set P \<inter> set (forest_ids cs) = {} \<Longrightarrow>
   checkChildren_loop P cs = Inr ()"
proof (induction P n and P cs rule: checkChildren_checkChildren_loop.induct)
  case (1 parentIds m cs en)
  from "1.prems" have "distinct (map id_of cs)"
    using valid_forest_roots_distinct [of cs] by (simp add: valid_forest_def)
  then have "card (set (map id_of cs)) = length (map id_of cs)"
    by (rule distinct_card)
  with 1 show ?case by simp
next
  case (2 parentIds)
  then show ?case by simp
next
  case (3 parentIds child rest)
  from "3.prems" have notin: "id_of child \<notin> set parentIds"
    by (auto simp: forest_ids_Cons)
  from "3.prems" have "checkChildren (parentIds @ [id_of child]) child = Inr ()"
    by (intro "3.IH"(1) notin) (auto simp: forest_ids_Cons)
  moreover from "3.prems" have "checkChildren_loop parentIds rest = Inr ()"
    using notin calculation by (intro "3.IH"(2)) (auto simp: forest_ids_Cons)
  ultimately show ?case using notin by simp
qed

lemma construct_loop_ok:
  "(\<And>n. n \<in> set ns \<Longrightarrow> checkChildren P n = Inr ()) \<Longrightarrow> construct_loop P ns = Inr ()"
  by (induction ns) simp_all

lemma valid_forest_constructs:
  assumes "valid_forest topology"
  shows "forest topology = Inr topology"
proof -
  have "distinct (map id_of topology)"
    using assms by (rule valid_forest_roots_distinct)
  then have card: "card (set (map id_of topology)) = length (map id_of topology)"
    by (rule distinct_card)
  have "checkChildren (map id_of topology) n = Inr ()" if "n \<in> set topology" for n
  proof (rule checkChildren_ok(1))
    show "distinct (forest_ids (children n))"
      using valid_forest_children [OF assms that] by (simp add: valid_forest_def)
    show "set (map id_of topology) \<inter> set (forest_ids (children n)) = {}"
      using valid_forest_root_vs_children [OF assms that] by auto
  qed
  then have "construct_loop (map id_of topology) topology = Inr ()"
    by (rule construct_loop_ok)
  with card show ?thesis by (simp add: forest_def)
qed

lemma card_set_distinct: "card (set xs) \<noteq> length xs \<longleftrightarrow> \<not> distinct xs"
  using card_distinct distinct_card by blast

lemma checkChildren_loop_Inr:
  "checkChildren_loop P cs = Inr u \<Longrightarrow> c \<in> set cs \<Longrightarrow>
   id_of c \<notin> set P \<and> checkChildren (P @ [id_of c]) c = Inr ()"
  by (induction cs) (auto split: if_splits sum.splits)

lemma checkChildren_Inr:
  assumes "checkChildren P x = Inr u"
  shows "distinct (map id_of (children x))"
    and "c \<in> set (children x) \<Longrightarrow> id_of c \<notin> set P \<and> checkChildren (P @ [id_of c]) c = Inr ()"
proof -
  obtain m cs en where x: "x = FeatureNode m cs en" by (cases x)
  with assms have d: "\<not> card (set (map id_of cs)) \<noteq> length (map id_of cs)" and
      l: "checkChildren_loop P cs = Inr u"
    by (auto simp: Let_def split: if_splits)
  from d x show "distinct (map id_of (children x))"
    by (simp only: card_set_distinct FeatureNode.sel not_not)
  assume "c \<in> set (children x)"
  with x l show "id_of c \<notin> set P \<and> checkChildren (P @ [id_of c]) c = Inr ()"
    using checkChildren_loop_Inr [of P cs u c] by simp
qed

lemma construct_loop_Inr:
  "construct_loop P ns = Inr u \<Longrightarrow> n \<in> set ns \<Longrightarrow> checkChildren P n = Inr ()"
  by (induction ns) (auto split: sum.splits)

lemma forest_Inr:
  assumes "forest topology = Inr sub"
  shows "distinct (map id_of topology)"
    and "n \<in> set topology \<Longrightarrow> checkChildren (map id_of topology) n = Inr ()"
proof -
  from assms have d: "\<not> card (set (map id_of topology)) \<noteq> length (map id_of topology)" and
      l: "construct_loop (map id_of topology) topology = Inr ()"
    by (auto simp: forest_def Let_def split: if_splits sum.splits)
  from d show "distinct (map id_of topology)"
    by (simp only: card_set_distinct not_not)
  assume "n \<in> set topology"
  with l show "checkChildren (map id_of topology) n = Inr ()" by (rule construct_loop_Inr)
qed

lemma butlast_step: "r \<noteq> [] \<Longrightarrow> butlast (k # r) = k # butlast r"
  by simp

lemma checkChildren_below:
  "checkChildren P x = Inr () \<Longrightarrow> node_at r (children x) = Some n \<Longrightarrow>
   id_of n \<notin> set P \<union> set (ids_along (butlast r) (children x)) \<and>
   checkChildren (P @ ids_along r (children x)) n = Inr ()"
proof (induction r arbitrary: P x)
  case Nil
  then show ?case by simp
next
  case (Cons k t)
  show ?case
  proof (cases "t = []")
    case True
    with Cons.prems(2) have "k < length (children x)" "n = children x ! k"
      by (auto split: if_splits)
    then have "n \<in> set (children x)" by simp
    with Cons.prems(1) have "id_of n \<notin> set P \<and> checkChildren (P @ [id_of n]) n = Inr ()"
      by (rule checkChildren_Inr(2))
    with True \<open>n = children x ! k\<close> show ?thesis by simp
  next
    case False
    let ?c = "children x ! k"
    from False Cons.prems(2) have k: "k < length (children x)" and
        at: "node_at t (children ?c) = Some n"
      by (auto simp: node_at_step split: if_splits)
    from k have "?c \<in> set (children x)" by simp
    with Cons.prems(1) have c: "id_of ?c \<notin> set P" "checkChildren (P @ [id_of ?c]) ?c = Inr ()"
      using checkChildren_Inr(2) [of P x "()" ?c] by simp_all
    from Cons.IH [OF c(2) at] have
      "id_of n \<notin> set (P @ [id_of ?c]) \<union> set (ids_along (butlast t) (children ?c))"
      "checkChildren ((P @ [id_of ?c]) @ ids_along t (children ?c)) n = Inr ()"
      by simp_all
    with False show ?thesis by (simp add: butlast_step)
  qed
qed

lemma node_at_snoc:
  "q \<noteq> [] \<Longrightarrow> node_at (q @ [a]) ns = Some n \<Longrightarrow>
   \<exists>m. node_at q ns = Some m \<and> a < length (children m) \<and> n = children m ! a"
proof (induction q arbitrary: ns)
  case Nil
  then show ?case by simp
next
  case (Cons k t)
  from Cons.prems(2) have k: "k < length ns" and
      at: "node_at (t @ [a]) (children (ns ! k)) = Some n"
    by (auto simp: node_at_step split: if_splits)
  show ?case
  proof (cases "t = []")
    case True
    with at k show ?thesis by (auto split: if_splits)
  next
    case False
    from Cons.IH [OF False at] obtain m where
      "node_at t (children (ns ! k)) = Some m" "a < length (children m)" "n = children m ! a"
      by blast
    with False k show ?thesis by (simp add: node_at_step)
  qed
qed

lemma node_at_id_last:
  "node_at r ns = Some n \<Longrightarrow> id_of n = last (ids_along r ns)"
proof (induction r ns rule: node_at.induct)
  case (1 ns)
  then show ?case by simp
next
  case (2 k ns)
  then show ?case by (auto split: if_splits)
next
  case (3 k v va ns)
  then show ?case by (auto split: if_splits)
qed

lemma ids_along_append:
  "ids_along (r @ u) ns = ids_along r ns @ drop (length r) (ids_along (r @ u) ns)"
  by (induction r arbitrary: ns) simp_all

lemma length_ids_along: "length (ids_along r ns) = length r"
  by (induction r arbitrary: ns) simp_all

lemma node_at_id_in_prefix:
  assumes "node_at r ns = Some n"
  shows "id_of n \<in> set (ids_along (r @ u) ns)"
proof -
  from assms have ne: "r \<noteq> []" by (rule node_at_nonempty)
  then have "ids_along r ns \<noteq> []" using length_ids_along [of r ns] by auto
  then have "last (ids_along r ns) \<in> set (ids_along r ns)" by simp
  with assms have "id_of n \<in> set (ids_along r ns)" by (simp add: node_at_id_last)
  then show ?thesis by (subst ids_along_append) simp
qed

lemma forest_checks_node:
  assumes "forest topology = Inr sub" "node_at q topology = Some m"
  shows "\<exists>P. set (map id_of topology) \<subseteq> set P \<and> checkChildren P m = Inr ()"
proof -
  from assms(2) obtain k t where q: "q = k # t" by (cases q) auto
  show ?thesis
  proof (cases "t = []")
    case True
    with q assms(2) have "m \<in> set topology" by (auto split: if_splits)
    with assms(1) have "checkChildren (map id_of topology) m = Inr ()" by (rule forest_Inr(2))
    then show ?thesis by blast
  next
    case False
    with q assms(2) have k: "k < length topology" and
        at: "node_at t (children (topology ! k)) = Some m"
      by (auto simp: node_at_step split: if_splits)
    from k have "topology ! k \<in> set topology" by simp
    with assms(1) have "checkChildren (map id_of topology) (topology ! k) = Inr ()"
      by (rule forest_Inr(2))
    from checkChildren_below [OF this at] have
      "checkChildren (map id_of topology @ ids_along t (children (topology ! k))) m = Inr ()"
      by simp
    moreover have "set (map id_of topology)
        \<subseteq> set (map id_of topology @ ids_along t (children (topology ! k)))"
      by simp
    ultimately show ?thesis by blast
  qed
qed

lemma forest_root_id_unique:
  assumes "forest topology = Inr sub" "k < length topology"
      "node_at r' topology = Some n'" "r' \<noteq> [k]"
  shows "id_of (topology ! k) \<noteq> id_of n'"
proof -
  from assms(3) obtain k' t' where r': "r' = k' # t'" by (cases r') auto
  show ?thesis
  proof (cases "t' = []")
    case True
    with r' assms(3,4) have k': "k' < length topology" "n' = topology ! k'" "k \<noteq> k'"
      by (auto split: if_splits)
    from assms(1) have "distinct (map id_of topology)" by (rule forest_Inr(1))
    with assms(2) k' show ?thesis
      using nth_eq_iff_index_eq [of "map id_of topology" k k'] by simp
  next
    case False
    with r' assms(3) have k': "k' < length topology" and
        at: "node_at t' (children (topology ! k')) = Some n'"
      by (auto simp: node_at_step split: if_splits)
    from k' have "topology ! k' \<in> set topology" by simp
    with assms(1) have "checkChildren (map id_of topology) (topology ! k') = Inr ()"
      by (rule forest_Inr(2))
    from checkChildren_below [OF this at] have "id_of n' \<notin> set (map id_of topology)"
      by simp
    moreover from assms(2) have "id_of (topology ! k) \<in> set (map id_of topology)"
      by simp
    ultimately show ?thesis by metis
  qed
qed

lemma forest_sibling_id_unique:
  assumes "forest topology = Inr sub" "node_at (q @ [a]) topology = Some n"
      "node_at (q @ [b]) topology = Some n'" "a \<noteq> b"
  shows "id_of n \<noteq> id_of n'"
proof (cases "q = []")
  case True
  with assms(2) have "a < length topology" "n = topology ! a" by (auto split: if_splits)
  moreover from True assms(4) have "q @ [b] \<noteq> [a]" by simp
  ultimately show ?thesis using forest_root_id_unique [OF assms(1) _ assms(3)] by simp
next
  case False
  from node_at_snoc [OF False assms(2)] obtain m where
      m: "node_at q topology = Some m" "a < length (children m)" "n = children m ! a"
    by blast
  from node_at_snoc [OF False assms(3)] m(1) have
      m': "b < length (children m)" "n' = children m ! b"
    by auto
  from forest_checks_node [OF assms(1) m(1)] obtain P where "checkChildren P m = Inr ()"
    by blast
  then have "distinct (map id_of (children m))" by (rule checkChildren_Inr(1))
  with m m' assms(4) show ?thesis
    using nth_eq_iff_index_eq [of "map id_of (children m)" a b] by simp
qed

lemma forest_ancestor_id_unique:
  assumes "forest topology = Inr sub" "node_at r topology = Some n"
      "node_at (r @ u) topology = Some n'" "u \<noteq> []"
  shows "id_of n \<noteq> id_of n'"
proof -
  from assms(2) obtain k t where r: "r = k # t" by (cases r) auto
  show ?thesis
  proof (cases "t = []")
    case True
    with r assms(2) have "k < length topology" "n = topology ! k" by (auto split: if_splits)
    moreover from True r assms(4) have "r @ u \<noteq> [k]" by simp
    ultimately show ?thesis using forest_root_id_unique [OF assms(1) _ assms(3)] by simp
  next
    case False
    let ?x = "topology ! k"
    from False r assms(2) have k: "k < length topology" and
        at: "node_at t (children ?x) = Some n"
      by (auto simp: node_at_step split: if_splits)
    from r assms(3) k have at': "node_at (t @ u) (children ?x) = Some n'"
      using False by (auto simp: node_at_step split: if_splits)
    from k have "?x \<in> set topology" by simp
    with assms(1) have "checkChildren (map id_of topology) ?x = Inr ()"
      by (rule forest_Inr(2))
    from checkChildren_below [OF this at'] have
      "id_of n' \<notin> set (ids_along (butlast (t @ u)) (children ?x))"
      by simp
    moreover have "butlast (t @ u) = t @ butlast u"
      using assms(4) by (simp add: butlast_append)
    moreover have "id_of n \<in> set (ids_along (t @ butlast u) (children ?x))"
      using at by (rule node_at_id_in_prefix)
    ultimately show ?thesis by metis
  qed
qed

text \<open>
  What the constructor does enforce: when two different nodes share an identifier and
  one of them is a root, or they are siblings, or one is an ancestor of the other, the
  constructor throws.
\<close>

lemma forest_rejects:
  assumes "node_at r topology = Some n" "node_at r' topology = Some n'" "r \<noteq> r'"
      "id_of n = id_of n'"
      "length r = 1 \<or> butlast r = butlast r' \<or> (\<exists>u. r' = r @ u)"
  shows "\<exists>e. forest topology = Inl e"
proof (rule ccontr)
  assume "\<nexists>e. forest topology = Inl e"
  then obtain sub where ok: "forest topology = Inr sub" by (cases "forest topology") auto
  from assms(1) have ne: "r \<noteq> []" by (rule node_at_nonempty)
  from assms(2) have ne': "r' \<noteq> []" by (rule node_at_nonempty)
  from assms(5) show False
  proof (elim disjE exE)
    assume "length r = 1"
    then obtain k where k: "r = [k]" by (cases r) auto
    with assms(1) have "k < length topology" "n = topology ! k" by (auto split: if_splits)
    moreover from k assms(3) have "r' \<noteq> [k]" by simp
    ultimately show False
      using forest_root_id_unique [OF ok _ assms(2)] assms(4) by simp
  next
    assume b: "butlast r = butlast r'"
    from ne have r: "r = butlast r @ [last r]" by simp
    from ne' b have r': "r' = butlast r @ [last r']" by simp
    from r r' assms(3) have "last r \<noteq> last r'" by metis
    moreover from assms(1) r have "node_at (butlast r @ [last r]) topology = Some n" by simp
    moreover from assms(2) r' have "node_at (butlast r @ [last r']) topology = Some n'" by simp
    ultimately show False
      using forest_sibling_id_unique [OF ok] assms(4) by blast
  next
    fix u
    assume u: "r' = r @ u"
    with assms(3) have "u \<noteq> []" by auto
    with u assms(1,2) show False
      using forest_ancestor_id_unique [OF ok, of r n u n'] assms(4) by simp
  qed
qed

text \<open>
  C1, at the input where the code differs. Two roots \<open>A\<close> and \<open>B\<close> each have a
  child with the identifier \<open>C\<close>. The identifiers of the two children are compared
  neither with each other (they are not siblings) nor through \<open>parentIds\<close> (neither
  is a root or an ancestor of the other), so the constructor returns the forest although
  two of its nodes share an identifier.
\<close>

theorem forest_accepts_cousins:
  "forest cousinsTopology = Inr cousinsTopology \<and>
   forest_ids cousinsTopology = [''A'', ''C'', ''B'', ''C''] \<and>
   \<not> valid_forest cousinsTopology"
  by code_simp

subsection \<open>Lookup\<close>

lemma find_root_None:
  "find_root i ns k = None \<longleftrightarrow> i \<notin> id_of ` set ns"
  by (induction i ns k rule: find_root.induct) auto

lemma find_root_Some:
  "find_root i ns k = Some (r, n) \<Longrightarrow>
   \<exists>j<length ns. r = [k + j] \<and> ns ! j = n \<and> id_of n = i"
proof (induction i ns k rule: find_root.induct)
  case (1 i k)
  then show ?case by simp
next
  case (2 i a rest k)
  show ?case
  proof (cases "id_of a = i")
    case True
    with "2.prems" show ?thesis by auto
  next
    case False
    with "2.prems" have "find_root i rest (Suc k) = Some (r, n)" by simp
    with False obtain j where "j < length rest" "r = [Suc k + j]" "rest ! j = n" "id_of n = i"
      using "2.IH" by blast
    then have "Suc j < length (a # rest) \<and> r = [k + Suc j] \<and> (a # rest) ! Suc j = n \<and> id_of n = i"
      by simp
    then show ?thesis by blast
  qed
qed

lemma findNode_valid:
  "valid_forest topology \<Longrightarrow>
   \<exists>res. findNodeInTopology i topology = Inr res \<and> found_ok i topology res"
  "valid_forest ns \<Longrightarrow>
   \<exists>res. findNode_loop i ns k = Inr res \<and> found_below i ns k res"
proof (induction i topology and i ns k rule: findNodeInTopology_findNode_loop.induct)
  case (1 i topology)
  show ?case
  proof (cases "find_root i topology 0")
    case None
    then obtain res where res: "findNode_loop i topology 0 = Inr res"
        "found_below i topology 0 res"
      using "1.IH" "1.prems" by blast
    have "found_ok i topology res"
    proof (cases res)
      case None': None
      with res(2) have "\<forall>n\<in>set topology. i \<notin> set (forest_ids (children n))"
        by (simp add: found_below_def)
      moreover from None have "i \<notin> id_of ` set topology"
        by (simp add: find_root_None)
      ultimately have "i \<notin> set (forest_ids topology)"
        by (subst set_forest_ids) blast
      with None' show ?thesis by (simp add: found_ok_def)
    next
      case (Some p)
      obtain r n where p: "p = (r, n)" by (cases p)
      with Some res(2) obtain j r' where jr: "r = j # r'" "j < length topology"
          "node_at r' (children (topology ! j)) = Some n" "id_of n = i"
        by (auto simp: found_below_def)
      from jr(3) have "r' \<noteq> []" by (rule node_at_nonempty)
      with jr have "node_at r topology = Some n" by (simp add: node_at_step)
      with Some p jr(4) show ?thesis by (simp add: found_ok_def)
    qed
    with None res(1) show ?thesis by simp
  next
    case (Some p)
    obtain r n where p: "p = (r, n)" by (cases p)
    with Some obtain j where "j < length topology" "r = [j]" "topology ! j = n" "id_of n = i"
      using find_root_Some [of i topology 0 r n] by auto
    then have "found_ok i topology (Some (r, n))"
      by (simp add: found_ok_def)
    with Some p show ?thesis by simp
  qed
next
  case (2 i k)
  then show ?case by (simp add: found_below_def)
next
  case (3 i n0 rest k)
  let ?cs = "children n0"
  from "3.prems" have vcs: "valid_forest ?cs" and vrest: "valid_forest rest"
    by (simp_all add: valid_forest_Cons)
  have sub: "forest ?cs = Inr ?cs" using vcs by (rule valid_forest_constructs)
  obtain res where res: "findNodeInTopology i ?cs = Inr res" "found_ok i ?cs res"
    using "3.IH"(1) [OF sub vcs] by blast
  show ?case
  proof (cases res)
    case None
    with res(2) have notin: "i \<notin> set (forest_ids ?cs)" by (simp add: found_ok_def)
    obtain res' where res': "findNode_loop i rest (Suc k) = Inr res'"
        "found_below i rest (Suc k) res'"
      using "3.IH"(2) [OF sub res(1) None vrest] by blast
    have "found_below i (n0 # rest) k res'"
    proof (cases res')
      case None
      with res'(2) notin show ?thesis by (simp add: found_below_def)
    next
      case (Some p)
      obtain r n where p: "p = (r, n)" by (cases p)
      with Some res'(2) obtain j r' where jr: "r = (Suc k + j) # r'" "j < length rest"
          "node_at r' (children (rest ! j)) = Some n" "id_of n = i"
        by (auto simp: found_below_def)
      then have "r = (k + Suc j) # r' \<and> Suc j < length (n0 # rest) \<and>
          node_at r' (children ((n0 # rest) ! Suc j)) = Some n \<and> id_of n = i"
        by simp
      then show ?thesis unfolding Some p found_below_def by (simp only: option.case prod.case) blast
    qed
    with sub res(1) None res'(1) show ?thesis by simp
  next
    case (Some p)
    obtain r n where p: "p = (r, n)" by (cases p)
    with Some res(2) have "node_at r ?cs = Some n" "id_of n = i"
      by (simp_all add: found_ok_def)
    then have "k # r = (k + 0) # r \<and> 0 < length (n0 # rest) \<and>
        node_at r (children ((n0 # rest) ! 0)) = Some n \<and> id_of n = i"
      by simp
    then have "found_below i (n0 # rest) k (Some (k # r, n))"
      unfolding found_below_def by (simp only: option.case prod.case) blast
    with sub res(1) Some p show ?thesis by simp
  qed
qed

lemma findNode_absent:
  assumes "valid_forest topology" "i \<notin> set (forest_ids topology)"
  shows "findNodeInTopology i topology = Inr None"
proof -
  obtain res where res: "findNodeInTopology i topology = Inr res" "found_ok i topology res"
    using findNode_valid(1) [OF assms(1)] by blast
  have "res = None"
  proof (cases res)
    case None
    then show ?thesis .
  next
    case (Some p)
    obtain r n where "p = (r, n)" by (cases p)
    with Some res(2) have "node_at r topology = Some n" "id_of n = i"
      by (simp_all add: found_ok_def)
    then have "i \<in> set (forest_ids topology)"
      using node_at_forest_nodes [of r topology n] by (auto simp: forest_ids_def)
    with assms(2) show ?thesis by simp
  qed
  with res(1) show ?thesis by simp
qed

lemma findNode_present:
  assumes "valid_forest topology" "n \<in> set (forest_nodes topology)"
  shows "\<exists>r. findNodeInTopology (id_of n) topology = Inr (Some (r, n)) \<and>
             node_at r topology = Some n"
proof -
  obtain res where res: "findNodeInTopology (id_of n) topology = Inr res"
      "found_ok (id_of n) topology res"
    using findNode_valid(1) [OF assms(1)] by blast
  show ?thesis
  proof (cases res)
    case None
    with res(2) have "id_of n \<notin> set (forest_ids topology)" by (simp add: found_ok_def)
    with assms(2) show ?thesis by (simp add: forest_ids_def)
  next
    case (Some p)
    obtain r n' where p: "p = (r, n')" by (cases p)
    with Some res(2) have at: "node_at r topology = Some n'" and "id_of n' = id_of n"
      by (simp_all add: found_ok_def)
    then have "n' = n"
      using valid_forest_same_id [OF assms(1) node_at_forest_nodes [OF at] assms(2)] by simp
    with Some p res(1) at show ?thesis by simp
  qed
qed

lemma findNode_found_has_id:
  "\<exists>p. findNodeInTopology i topology = Inr (Some p) \<Longrightarrow> i \<in> set (forest_ids topology)"
  "\<exists>p. findNode_loop i ns k = Inr (Some p) \<Longrightarrow>
   \<exists>x\<in>set ns. i \<in> set (forest_ids (children x))"
proof (induction i topology and i ns k rule: findNodeInTopology_findNode_loop.induct)
  case (1 i topology)
  show ?case
  proof (cases "find_root i topology 0")
    case None
    with "1.prems" have "\<exists>p. findNode_loop i topology 0 = Inr (Some p)" by simp
    with None have "\<exists>x\<in>set topology. i \<in> set (forest_ids (children x))" by (rule "1.IH")
    then show ?thesis by (subst set_forest_ids) blast
  next
    case (Some q)
    then have "i \<in> id_of ` set topology"
      using find_root_None [of i topology 0] by simp
    then show ?thesis by (subst set_forest_ids) blast
  qed
next
  case (2 i k)
  then show ?case by simp
next
  case (3 i n rest k)
  from "3.prems" obtain sub where sub: "forest (children n) = Inr sub"
    by (auto split: sum.splits)
  then have eq: "sub = children n" by (rule forest_returns_topology)
  from "3.prems" sub obtain res where res: "findNodeInTopology i sub = Inr res"
    by (auto split: sum.splits)
  show ?case
  proof (cases res)
    case None
    with "3.prems" sub res have "\<exists>p. findNode_loop i rest (Suc k) = Inr (Some p)" by simp
    with sub res None have "\<exists>x\<in>set rest. i \<in> set (forest_ids (children x))"
      by (rule "3.IH"(2))
    then show ?thesis by auto
  next
    case (Some q)
    with res have "\<exists>p. findNodeInTopology i sub = Inr (Some p)" by simp
    with sub have "i \<in> set (forest_ids sub)" by (rule "3.IH"(1))
    with eq show ?thesis by simp
  qed
qed

text \<open>
  The accepted forest \<open>uncleTopology\<close> has the identifier \<open>C\<close> on a child of
  \<open>A\<close> and on a child of that child's sibling \<open>B\<close>. The constructor returns it,
  and then every lookup that has to descend below the root throws, because the sub-forest
  built from the children of \<open>A\<close> is rejected.
\<close>

lemma forest_accepts_uncle:
  "forest uncleTopology = Inr uncleTopology \<and>
   get (ById ''B'') uncleTopology = Inl (DuplicateFeatureID ''C'') \<and>
   fst (enable (ById ''C'') uncleTopology) = Inl (DuplicateFeatureID ''C'')"
  by code_simp

text \<open>
  C7. On a valid forest \<open>get\<close> returns a value and never throws: \<open>false\<close> when
  no node of the forest has the identifier, and otherwise the stored flag of the node
  that has it, which is the node the search finds.
\<close>

theorem get_valid:
  assumes "valid_forest topology"
  shows "(feature_id f \<notin> set (forest_ids topology) \<longrightarrow> get f topology = Inr False) \<and>
         (\<forall>n\<in>set (forest_nodes topology).
            id_of n = feature_id f \<longrightarrow> get f topology = Inr (enabled n))"
proof (intro conjI impI ballI)
  assume "feature_id f \<notin> set (forest_ids topology)"
  with assms have "findNodeInTopology (feature_id f) topology = Inr None"
    by (rule findNode_absent)
  then show "get f topology = Inr False" by (simp add: get_def)
next
  fix n
  assume n: "n \<in> set (forest_nodes topology)" and i: "id_of n = feature_id f"
  from findNode_present [OF assms n] i
  obtain r where "findNodeInTopology (feature_id f) topology = Inr (Some (r, n))"
    by auto
  then show "get f topology = Inr (enabled n)" by (simp add: get_def)
qed

theorem get_valid_witness:
  "valid_forest exampleTopology \<and>
   ''Z'' \<notin> set (forest_ids exampleTopology) \<and>
   get (ById ''Z'') exampleTopology = Inr False \<and>
   node (feature ''E'' ''Feature E'' ''leaf'') None (Some True)
     \<in> set (forest_nodes exampleTopology) \<and>
   get (ById ''E'') exampleTopology
     = Inr (enabled (node (feature ''E'' ''Feature E'' ''leaf'') None (Some True))) \<and>
   get (ById ''E'') exampleTopology = Inr True"
proof -
  let ?e = "node (feature ''E'' ''Feature E'' ''leaf'') None (Some True)"
  have v: "valid_forest exampleTopology" by code_simp
  have z: "feature_id (ById ''Z'') \<notin> set (forest_ids exampleTopology)" by code_simp
  have m: "?e \<in> set (forest_nodes exampleTopology)" by code_simp
  have i: "id_of ?e = feature_id (ById ''E'')" by code_simp
  have t: "enabled ?e = True" by code_simp
  from get_valid [OF v, of "ById ''Z''"] z
  have "get (ById ''Z'') exampleTopology = Inr False" by blast
  moreover from get_valid [OF v, of "ById ''E''"] m i
  have "get (ById ''E'') exampleTopology = Inr (enabled ?e)" by blast
  ultimately show ?thesis using v z m t by simp
qed

lemma set_enabled_absent:
  assumes "feature_id f \<notin> set (forest_ids topology)"
  shows "\<exists>e. set_enabled f b topology = (Inl e, topology)"
proof (cases "findNodeInTopology (feature_id f) topology")
  case (Inl e)
  then show ?thesis by (simp add: set_enabled_def)
next
  case (Inr res)
  with assms have "res = None"
    using findNode_found_has_id(1) [of "feature_id f" topology] by (cases res) auto
  with Inr show ?thesis by (simp add: set_enabled_def)
qed

text \<open>
  C6. \<open>set\<close>, \<open>enable\<close> and \<open>disable\<close> with an identifier that no node
  of the forest has throw, and the forest after the call is the forest before it. On a
  valid forest the error is the \<open>TypeError\<close> of the write to \<open>undefined\<close>;
  on a forest with a repeated identifier it may be the error of a sub-forest constructor
  instead.
\<close>

theorem set_unknown_throws:
  assumes "feature_id f \<notin> set (forest_ids topology)"
  shows "(\<exists>e. set_enabled f b topology = (Inl e, topology)) \<and>
         (\<exists>e. enable f topology = (Inl e, topology)) \<and>
         (\<exists>e. disable f topology = (Inl e, topology)) \<and>
         (valid_forest topology \<longrightarrow>
            set_enabled f b topology = (Inl TypeError, topology) \<and>
            enable f topology = (Inl TypeError, topology) \<and>
            disable f topology = (Inl TypeError, topology))"
proof -
  have "findNodeInTopology (feature_id f) topology = Inr None" if "valid_forest topology"
    using that assms by (rule findNode_absent)
  then show ?thesis
    using set_enabled_absent [OF assms]
    by (simp add: set_enabled_def enable_def disable_def)
qed

theorem set_unknown_throws_witness:
  "valid_forest exampleTopology \<and>
   ''Z'' \<notin> set (forest_ids exampleTopology) \<and>
   set_enabled (ById ''Z'') True exampleTopology = (Inl TypeError, exampleTopology) \<and>
   enable (ById ''Z'') exampleTopology = (Inl TypeError, exampleTopology) \<and>
   disable (ById ''Z'') exampleTopology = (Inl TypeError, exampleTopology)"
proof -
  have v: "valid_forest exampleTopology" by code_simp
  have z: "feature_id (ById ''Z'') \<notin> set (forest_ids exampleTopology)" by code_simp
  from set_unknown_throws [OF z, of True] v z show ?thesis by simp
qed

subsection \<open>Writes\<close>

lemma forest_ids_update:
  assumes "k < length ns" "id_of x = id_of (ns ! k)"
      "forest_ids (children x) = forest_ids (children (ns ! k))"
  shows "forest_ids (ns[k := x]) = forest_ids ns"
proof -
  have "forest_ids (ns[k := x]) = forest_ids (take k ns @ x # drop (Suc k) ns)"
    using assms(1) by (simp add: upd_conv_take_nth_drop)
  also have "\<dots> = forest_ids (take k ns @ ns ! k # drop (Suc k) ns)"
    using assms(2,3) by (simp add: forest_ids_append forest_ids_Cons)
  also have "\<dots> = forest_ids ns"
    using assms(1) by (simp add: id_take_nth_drop [symmetric])
  finally show ?thesis .
qed

lemma forest_ids_assign_enabled:
  "forest_ids (assign_enabled r b ns) = forest_ids ns"
  by (induction r b ns rule: assign_enabled.induct) (simp_all add: forest_ids_update)

lemma valid_forest_assign_enabled:
  "valid_forest (assign_enabled r b ns) = valid_forest ns"
  by (simp add: valid_forest_def forest_ids_assign_enabled)

lemma node_at_assign_enabled_same:
  "node_at r ns = Some n \<Longrightarrow>
   node_at r (assign_enabled r b ns) = Some (FeatureNode (metadata n) (children n) b)"
  by (induction r b ns rule: assign_enabled.induct) (auto split: if_splits)

lemma assign_enabled_same_flag:
  "node_at r ns = Some n \<Longrightarrow> enabled n = b \<Longrightarrow> assign_enabled r b ns = ns"
  by (induction r b ns rule: assign_enabled.induct)
     (auto split: if_splits simp: list_update_same_conv)

lemma assign_enabled_twice:
  "assign_enabled r b (assign_enabled r b' ns) = assign_enabled r b ns"
  by (induction r b' ns rule: assign_enabled.induct) auto

lemma node_at_assign_enabled_other:
  "r' \<noteq> r \<Longrightarrow>
   map_option (\<lambda>n. (metadata n, enabled n)) (node_at r' (assign_enabled r b ns)) =
   map_option (\<lambda>n. (metadata n, enabled n)) (node_at r' ns)"
proof (induction r b ns arbitrary: r' rule: assign_enabled.induct)
  case (1 b ns)
  then show ?case by simp
next
  case (2 k b ns)
  show ?case
  proof (cases r')
    case Nil
    then show ?thesis by simp
  next
    case (Cons k' t')
    with "2.prems" show ?thesis
      by (cases t') (auto simp: nth_list_update)
  qed
next
  case (3 k v va b ns)
  show ?case
  proof (cases r')
    case Nil
    then show ?thesis by simp
  next
    case (Cons k' t')
    show ?thesis
    proof (cases t')
      case Nil
      with Cons show ?thesis by (auto simp: nth_list_update)
    next
      case Cons': (Cons w wa)
      show ?thesis
      proof (cases "k' = k \<and> k < length ns")
        case True
        with Cons "3.prems" have "t' \<noteq> v # va" by simp
        with True have "map_option (\<lambda>n. (metadata n, enabled n))
            (node_at t' (assign_enabled (v # va) b (children (ns ! k)))) =
          map_option (\<lambda>n. (metadata n, enabled n)) (node_at t' (children (ns ! k)))"
          by (intro "3.IH") simp_all
        with True Cons Cons' show ?thesis by simp
      next
        case False
        with Cons Cons' show ?thesis by (auto simp: nth_list_update)
      qed
    qed
  qed
qed

lemma set_enabled_present:
  assumes "valid_forest topology" "node_at r topology = Some n" "id_of n = feature_id f"
  shows "set_enabled f b topology = (Inr (), assign_enabled r b topology)"
proof -
  have mem: "n \<in> set (forest_nodes topology)"
    using assms(2) by (rule node_at_forest_nodes)
  from findNode_present [OF assms(1) mem] obtain r0 where
      f: "findNodeInTopology (id_of n) topology = Inr (Some (r0, n))" and
      at: "node_at r0 topology = Some n"
    by blast
  have "r0 = r"
    using assms(1) at assms(2) by (rule node_at_unique) simp
  with f assms(3) show ?thesis by (simp add: set_enabled_def)
qed

text \<open>
  C3. On a valid forest, for a feature whose node is enabled, \<open>disable\<close> succeeds
  and writes only the flag of that node: at every other reference the metadata and the
  flag are what they were. The \<open>enable\<close> that follows succeeds and gives back the
  forest as it was before the \<open>disable\<close>, so every query answers as before.
\<close>

theorem disable_enable_restores:
  assumes "valid_forest topology" "node_at r topology = Some n"
      "id_of n = feature_id f" "enabled n"
  shows "fst (disable f topology) = Inr () \<and>
         node_at r (snd (disable f topology))
           = Some (FeatureNode (metadata n) (children n) False) \<and>
         (\<forall>r'. r' \<noteq> r \<longrightarrow>
            map_option (\<lambda>n'. (metadata n', enabled n')) (node_at r' (snd (disable f topology)))
              = map_option (\<lambda>n'. (metadata n', enabled n')) (node_at r' topology)) \<and>
         enable f (snd (disable f topology)) = (Inr (), topology) \<and>
         (\<forall>level. getFeaturesForLevel level (snd (enable f (snd (disable f topology))))
                    = getFeaturesForLevel level topology) \<and>
         getAllEnabled (snd (enable f (snd (disable f topology)))) = getAllEnabled topology \<and>
         (\<forall>g. get g (snd (enable f (snd (disable f topology)))) = get g topology)"
proof -
  let ?t1 = "assign_enabled r False topology"
  let ?n1 = "FeatureNode (metadata n) (children n) False"
  have dis: "disable f topology = (Inr (), ?t1)"
    unfolding disable_def using assms(1-3) by (rule set_enabled_present)
  have v1: "valid_forest ?t1"
    using assms(1) by (simp add: valid_forest_assign_enabled)
  have at1: "node_at r ?t1 = Some ?n1"
    using assms(2) by (rule node_at_assign_enabled_same)
  have "id_of ?n1 = feature_id f" using assms(3) by simp
  with v1 at1 have "set_enabled f True ?t1 = (Inr (), assign_enabled r True ?t1)"
    by (rule set_enabled_present)
  moreover have "assign_enabled r True ?t1 = topology"
    using assms(2,4) by (simp add: assign_enabled_twice assign_enabled_same_flag)
  ultimately have en: "enable f ?t1 = (Inr (), topology)"
    by (simp add: enable_def)
  have other: "\<forall>r'. r' \<noteq> r \<longrightarrow>
      map_option (\<lambda>n'. (metadata n', enabled n')) (node_at r' ?t1)
        = map_option (\<lambda>n'. (metadata n', enabled n')) (node_at r' topology)"
    by (simp add: node_at_assign_enabled_other)
  from dis en at1 other show ?thesis by simp
qed

theorem disable_enable_restores_witness:
  "valid_forest exampleTopology \<and>
   node_at [0, 0] exampleTopology
     = Some (node (feature ''B'' ''Feature B'' ''first child'')
               (Some [node (feature ''C'' ''Feature C'' ''leaf'') None None]) (Some True)) \<and>
   fst (disable (ById ''B'') exampleTopology) = Inr () \<and>
   map_option enabled (node_at [0, 0] (snd (disable (ById ''B'') exampleTopology)))
     = Some False \<and>
   map_option (\<lambda>n'. (metadata n', enabled n'))
       (node_at [0, 1, 0] (snd (disable (ById ''B'') exampleTopology)))
     = map_option (\<lambda>n'. (metadata n', enabled n')) (node_at [0, 1, 0] exampleTopology) \<and>
   enable (ById ''B'') (snd (disable (ById ''B'') exampleTopology))
     = (Inr (), exampleTopology) \<and>
   getAllEnabled (snd (enable (ById ''B'') (snd (disable (ById ''B'') exampleTopology))))
     = getAllEnabled exampleTopology"
proof -
  let ?b = "node (feature ''B'' ''Feature B'' ''first child'')
               (Some [node (feature ''C'' ''Feature C'' ''leaf'') None None]) (Some True)"
  have v: "valid_forest exampleTopology" by code_simp
  have at: "node_at [0, 0] exampleTopology = Some ?b" by code_simp
  have i: "id_of ?b = feature_id (ById ''B'')" by code_simp
  have e: "enabled ?b" by code_simp
  have ne: "[0, 1, 0] \<noteq> [0, 0::nat]" by simp
  note th = disable_enable_restores [OF v at i e]
  from th have c1: "fst (disable (ById ''B'') exampleTopology) = Inr ()"
    by blast
  from th have "node_at [0, 0] (snd (disable (ById ''B'') exampleTopology))
      = Some (FeatureNode (metadata ?b) (children ?b) False)"
    by blast
  then have "map_option enabled (node_at [0, 0] (snd (disable (ById ''B'') exampleTopology)))
      = map_option enabled (Some (FeatureNode (metadata ?b) (children ?b) False))"
    by (rule arg_cong)
  then have c2: "map_option enabled
      (node_at [0, 0] (snd (disable (ById ''B'') exampleTopology))) = Some False"
    by (simp only: option.map FeatureNode.sel)
  from th ne have c3: "map_option (\<lambda>n'. (metadata n', enabled n'))
       (node_at [0, 1, 0] (snd (disable (ById ''B'') exampleTopology)))
     = map_option (\<lambda>n'. (metadata n', enabled n')) (node_at [0, 1, 0] exampleTopology)"
    by blast
  from th have c4: "enable (ById ''B'') (snd (disable (ById ''B'') exampleTopology))
     = (Inr (), exampleTopology)"
    by blast
  from th have c5:
    "getAllEnabled (snd (enable (ById ''B'') (snd (disable (ById ''B'') exampleTopology))))
     = getAllEnabled exampleTopology"
    by blast
  from v at c1 c2 c3 c4 c5 show ?thesis by blast
qed

subsection \<open>All enabled features\<close>

lemma en_node_eq: "en_node n = n # en_forest (children n)"
  by (cases n) simp

lemma set_en_forest:
  "set (en_forest ns) =
     (\<Union>x\<in>{x \<in> set ns. enabled x}. insert x (set (en_forest (children x))))"
  by (induction ns) (auto simp: en_node_eq)

lemma set_next_search:
  "set (concat (map (\<lambda>n. filter enabled (children n)) search)) =
     (\<Union>x\<in>set search. {c \<in> set (children x). enabled c})"
  by auto

lemma en_step:
  "(\<Union>x\<in>set search. insert x (set (en_forest (children x)))) =
   set search \<union>
   (\<Union>c\<in>set (concat (map (\<lambda>n. filter enabled (children n)) search)).
        insert c (set (en_forest (children c))))"
proof -
  have "(\<Union>x\<in>set search. insert x (set (en_forest (children x)))) =
        set search \<union> (\<Union>x\<in>set search. set (en_forest (children x)))"
    by auto
  also have "(\<Union>x\<in>set search. set (en_forest (children x))) =
        (\<Union>x\<in>set search. \<Union>c\<in>{c \<in> set (children x). enabled c}.
            insert c (set (en_forest (children c))))"
    by (subst set_en_forest) (rule refl)
  also have "\<dots> = (\<Union>c\<in>set (concat (map (\<lambda>n. filter enabled (children n)) search)).
        insert c (set (en_forest (children c))))"
    unfolding set_next_search by blast
  finally show ?thesis .
qed

lemma set_getAllEnabled_loop:
  "set (getAllEnabled_loop search acc) =
     set acc \<union> metadata ` (\<Union>x\<in>set search. insert x (set (en_forest (children x))))"
proof (induction search acc rule: getAllEnabled_loop.induct)
  case (1 search acc)
  show ?case
  proof (cases "search = []")
    case True
    then show ?thesis by (subst getAllEnabled_loop.simps) simp
  next
    case False
    let ?next = "concat (map (\<lambda>n. filter enabled (children n)) search)"
    from False have pos: "0 < length search" by simp
    have "set (getAllEnabled_loop search acc) =
          set (getAllEnabled_loop ?next (acc @ map metadata search))"
      using pos by (subst getAllEnabled_loop.simps) simp
    also have "\<dots> = set (acc @ map metadata search) \<union>
          metadata ` (\<Union>c\<in>set ?next. insert c (set (en_forest (children c))))"
      using pos by (rule "1.IH")
    also have "\<dots> = set acc \<union> metadata ` (set search \<union>
          (\<Union>c\<in>set ?next. insert c (set (en_forest (children c)))))"
      by (simp add: image_Un Un_assoc)
    also have "\<dots> = set acc \<union>
          metadata ` (\<Union>x\<in>set search. insert x (set (en_forest (children x))))"
      by (subst (2) en_step) (rule refl)
    finally show ?thesis .
  qed
qed

lemma set_getAllEnabled:
  "set (getAllEnabled topology) = metadata ` set (en_forest topology)"
proof -
  have "set (getAllEnabled topology) =
        metadata ` (\<Union>x\<in>set (filter enabled topology).
                      insert x (set (en_forest (children x))))"
    by (simp add: getAllEnabled_def set_getAllEnabled_loop)
  also have "\<dots> = metadata ` set (en_forest topology)"
    by (subst (2) set_en_forest) simp
  finally show ?thesis .
qed

lemma chain_enabled_en_forest:
  "node_at r ns = Some n \<Longrightarrow> chain_enabled r ns \<Longrightarrow> n \<in> set (en_forest ns)"
proof (induction r ns rule: node_at.induct)
  case (1 ns)
  then show ?case by simp
next
  case (2 k ns)
  then have "n \<in> set ns" "enabled n" by (auto split: if_splits)
  then show ?case by (subst set_en_forest) blast
next
  case (3 k v va ns)
  from "3.prems" have k: "k < length ns" and en: "enabled (ns ! k)" and
      at: "node_at (v # va) (children (ns ! k)) = Some n" and
      ch: "chain_enabled (v # va) (children (ns ! k))"
    by (auto split: if_splits)
  from "3.IH" [OF k at ch] have "n \<in> set (en_forest (children (ns ! k)))" .
  moreover from k have "ns ! k \<in> set ns" by simp
  ultimately show ?case using en by (subst set_en_forest) blast
qed

lemma size_list_children_mem:
  "x \<in> set ns \<Longrightarrow> size_list size (children x) < size_list size ns"
proof -
  assume "x \<in> set ns"
  then have "size x \<le> size_list size ns"
    by (induction ns) auto
  moreover have "size_list size (children x) < size x" by (cases x) simp
  ultimately show ?thesis by simp
qed

lemma en_forest_chain_enabled:
  "n \<in> set (en_forest ns) \<Longrightarrow> \<exists>r. node_at r ns = Some n \<and> chain_enabled r ns"
proof (induction ns arbitrary: n rule: measure_induct_rule [where f = "size_list size"])
  case (less ns)
  from less.prems obtain x where x: "x \<in> set ns" "enabled x" and
      n: "n = x \<or> n \<in> set (en_forest (children x))"
    by (subst (asm) set_en_forest) blast
  from x(1) obtain k where k: "k < length ns" "ns ! k = x"
    by (auto simp: in_set_conv_nth)
  from n show ?case
  proof
    assume "n = x"
    with k x(2) have "node_at [k] ns = Some n \<and> chain_enabled [k] ns" by simp
    then show ?thesis by blast
  next
    assume "n \<in> set (en_forest (children x))"
    moreover have "size_list size (children x) < size_list size ns"
      using x(1) by (rule size_list_children_mem)
    ultimately obtain r where r: "node_at r (children x) = Some n"
        "chain_enabled r (children x)"
      using less.IH by blast
    from r(1) have "r \<noteq> []" by (rule node_at_nonempty)
    then obtain v va where "r = v # va" by (cases r) auto
    with r k x(2) have "node_at (k # r) ns = Some n \<and> chain_enabled (k # r) ns" by simp
    then show ?thesis by blast
  qed
qed

text \<open>
  C2. On a valid forest, the metadata of a node is in the result of
  \<open>getAllEnabled\<close> exactly when the node and all its ancestors, up to the root of
  its tree, have their flag set.
\<close>

theorem getAllEnabled_iff:
  assumes "valid_forest topology" "node_at r topology = Some n"
  shows "metadata n \<in> set (getAllEnabled topology) \<longleftrightarrow> chain_enabled r topology"
proof
  assume "metadata n \<in> set (getAllEnabled topology)"
  then obtain n' where n': "n' \<in> set (en_forest topology)" "metadata n' = metadata n"
    by (auto simp: set_getAllEnabled)
  from n'(1) obtain r' where r': "node_at r' topology = Some n'" "chain_enabled r' topology"
    using en_forest_chain_enabled by blast
  from n'(2) have "id_of n' = id_of n" by simp
  with assms r'(1) have "r' = r" by (intro node_at_unique [of topology r' n' r n])
  with r'(2) show "chain_enabled r topology" by simp
next
  assume "chain_enabled r topology"
  with assms(2) have "n \<in> set (en_forest topology)" by (rule chain_enabled_en_forest)
  then show "metadata n \<in> set (getAllEnabled topology)" by (simp add: set_getAllEnabled)
qed

theorem getAllEnabled_iff_witness:
  "valid_forest exampleTopology \<and>
   node_at [0, 0] exampleTopology
     = Some (node (feature ''B'' ''Feature B'' ''first child'')
               (Some [node (feature ''C'' ''Feature C'' ''leaf'') None None]) (Some True)) \<and>
   chain_enabled [0, 0] exampleTopology \<and>
   feature ''B'' ''Feature B'' ''first child'' \<in> set (getAllEnabled exampleTopology) \<and>
   node_at [0, 1, 0] exampleTopology
     = Some (node (feature ''E'' ''Feature E'' ''leaf'') None (Some True)) \<and>
   \<not> chain_enabled [0, 1, 0] exampleTopology \<and>
   feature ''E'' ''Feature E'' ''leaf'' \<notin> set (getAllEnabled exampleTopology)"
proof -
  let ?b = "node (feature ''B'' ''Feature B'' ''first child'')
               (Some [node (feature ''C'' ''Feature C'' ''leaf'') None None]) (Some True)"
  let ?e = "node (feature ''E'' ''Feature E'' ''leaf'') None (Some True)"
  have v: "valid_forest exampleTopology" by code_simp
  have atb: "node_at [0, 0] exampleTopology = Some ?b" by code_simp
  have chb: "chain_enabled [0, 0] exampleTopology" by code_simp
  have mb: "metadata ?b = feature ''B'' ''Feature B'' ''first child''" by code_simp
  have ate: "node_at [0, 1, 0] exampleTopology = Some ?e" by code_simp
  have che: "\<not> chain_enabled [0, 1, 0] exampleTopology" by code_simp
  have me: "metadata ?e = feature ''E'' ''Feature E'' ''leaf''" by code_simp
  from getAllEnabled_iff [OF v atb] chb
  have "metadata ?b \<in> set (getAllEnabled exampleTopology)" by blast
  then
  have inb: "feature ''B'' ''Feature B'' ''first child'' \<in> set (getAllEnabled exampleTopology)"
    unfolding mb .
  from getAllEnabled_iff [OF v ate] che
  have "metadata ?e \<notin> set (getAllEnabled exampleTopology)" by blast
  then
  have oute: "feature ''E'' ''Feature E'' ''leaf'' \<notin> set (getAllEnabled exampleTopology)"
    unfolding me .
  from v atb chb inb ate che oute show ?thesis by blast
qed

subsection \<open>Parents\<close>

text \<open>
  What \<open>getParentOf\<close> does on a valid forest: it throws for every root, and for a
  child of a root it returns the metadata of that root.
\<close>

lemma getParentOf_root:
  assumes "valid_forest topology" "n \<in> set topology" "feature_id f = id_of n"
  shows "getParentOf f topology = Inl TypeError"
proof -
  have mem: "n \<in> set (forest_nodes topology)"
    using assms(2) by (subst set_forest_nodes) blast
  from findNode_present [OF assms(1) mem] assms(3) obtain r where
      f: "findNodeInTopology (feature_id f) topology = Inr (Some (r, n))"
    by auto
  have "\<not> includes_node (children x) (Some n)" if "x \<in> set topology" for x
  proof
    assume "includes_node (children x) (Some n)"
    then have "n \<in> set (children x)" by (simp add: includes_node_def)
    then have "id_of n \<in> set (forest_ids (children x))" by (rule root_ids_subset)
    moreover have "id_of n \<notin> set (forest_ids (children x))"
      using assms(1) that assms(2) by (rule valid_forest_root_vs_children)
    ultimately show False by simp
  qed
  then have "find (\<lambda>currentNode. includes_node (children currentNode) (Some n)) topology = None"
    by (simp add: find_None_iff)
  with f show ?thesis by (simp add: getParentOf_def)
qed

lemma getParentOf_child:
  assumes "valid_forest topology" "k < length topology" "c \<in> set (children (topology ! k))"
      "feature_id f = id_of c"
  shows "getParentOf f topology = Inr (Some (metadata (topology ! k)))"
proof -
  let ?P = "\<lambda>currentNode. includes_node (children currentNode) (Some c)"
  have "c \<in> set (forest_nodes (children (topology ! k)))"
    using assms(3) by (subst set_forest_nodes) blast
  then have mem: "c \<in> set (forest_nodes topology)"
    using assms(2) by (subst set_forest_nodes) (use nth_mem in blast)
  from findNode_present [OF assms(1) mem] assms(4) obtain r where
      f: "findNodeInTopology (feature_id f) topology = Inr (Some (r, c))"
    by auto
  have idc: "id_of c \<in> set (forest_ids (children (topology ! k)))"
    using assms(3) by (rule root_ids_subset)
  have Pk: "?P (topology ! k)" using assms(3) by (simp add: includes_node_def)
  have before: "\<not> ?P (topology ! j)" if "j < k" for j
  proof
    assume "?P (topology ! j)"
    then have "id_of c \<in> set (forest_ids (children (topology ! j)))"
      by (auto simp: includes_node_def intro: root_ids_subset)
    moreover from that assms(2) have
      "set (forest_ids (children (topology ! j))) \<inter>
       set (forest_ids (children (topology ! k))) = {}"
      by (intro valid_forest_children_disjoint [OF assms(1)]) simp_all
    ultimately show False using idc by blast
  qed
  have "find ?P topology = Some (topology ! k)"
    using assms(2) Pk before by (subst find_Some_iff) blast
  with f show ?thesis by (simp add: getParentOf_def)
qed

text \<open>
  C5, at the input where the code differs. \<open>VALIDATOR\<close> is a root of the catalog
  forest, which is valid. No root has it among its children, so \<open>find\<close> answers
  \<open>undefined\<close> and reading its \<open>metadata\<close> throws: the call fails with a
  \<open>TypeError\<close> and does not return \<open>undefined\<close>.
\<close>

theorem getParentOf_root_throws:
  "valid_forest cinnamonTopology \<and>
   getParentOf (ById VALIDATOR) cinnamonTopology = Inl TypeError \<and>
   getParentOf (ById VALIDATOR) cinnamonTopology \<noteq> Inr None"
  by code_simp

subsection \<open>The reference catalog\<close>

text \<open>
  C9. \<open>createCinnamonFeatureForest()\<close> succeeds and every flag of the forest is
  false; level 0 has the five roots and level 1 is empty; after
  \<open>enable(DATABASE)\<close> level 1 is the metadata of \<open>AUTHENTICATION\<close> and
  \<open>ASSET\<close>, two entries.
\<close>

theorem cinnamon_catalog_levels:
  "(case createCinnamonFeatureForest of
      Inl e \<Rightarrow> False
    | Inr features \<Rightarrow>
        map enabled (forest_nodes features) = replicate 9 False \<and>
        length (getFeaturesForLevel 0 features) = 5 \<and>
        getFeaturesForLevel 0 features =
          map CinnamonProjectFeature
            [VALIDATOR, DATABASE, ASL_PROTOCOL, ASL_ERRORS, WEBSERVER_SETTINGS_PLUGIN] \<and>
        getFeaturesForLevel 1 features = [] \<and>
        (case enable (ByMetadata (CinnamonProjectFeature DATABASE)) features of
           (Inl e, features') \<Rightarrow> False
         | (Inr u, features') \<Rightarrow>
             getFeaturesForLevel 1 features' =
               [CinnamonProjectFeature AUTHENTICATION, CinnamonProjectFeature ASSET] \<and>
             length (getFeaturesForLevel 1 features') = 2))"
  by code_simp

end
